theory Spec2Isabelle
  imports Main
begin

section \<open>Spoiler Blocker: the content script, embedded\<close>

text \<open>
  The development follows \<^verbatim>\<open>contentScript.js\<close> (and the storage listener of
  \<^verbatim>\<open>background.js\<close>). JavaScript values are modelled as follows.
  \<^item> A JavaScript string holding page text or a keyword is a list of UTF-16 code units
    (\<open>jsstring\<close>); the constant ASCII strings of the script (class names, CSS property
    names and values, mode names, host names) are HOL strings.
  \<^item> \<open>undefined\<close> is \<open>None\<close>: a settings field, an argument or an object property
    that may be undefined has an option type.
  \<^item> A reference that may be \<open>null\<close> or \<open>undefined\<close> is a \<open>ref\<close>.
  \<^item> Numbers are the integers the settings hold (milliseconds, pixels).
\<close>

subsection \<open>Strings\<close>

type_synonym jsstring = "nat list"

definition str :: "string \<Rightarrow> jsstring" where
  "str s = map of_char s"

text \<open>\<^verbatim>\<open>String.prototype.trim\<close> strips WhiteSpace and LineTerminator code units
  from both ends.\<close>

definition isWhiteSpace :: "nat \<Rightarrow> bool" where
  "isWhiteSpace c \<longleftrightarrow>
     c \<in> {9, 10, 11, 12, 13, 32, 160, 5760, 8232, 8233, 8239, 8287, 12288, 65279}
     \<or> (8192 \<le> c \<and> c \<le> 8202)"

definition trim :: "jsstring \<Rightarrow> jsstring" where
  "trim s = rev (dropWhile isWhiteSpace (rev (dropWhile isWhiteSpace s)))"

text \<open>\<^verbatim>\<open>Array.prototype.join\<close> with a one-unit separator.\<close>

fun join :: "nat \<Rightarrow> jsstring list \<Rightarrow> jsstring" where
  "join sep [] = []"
| "join sep [x] = x"
| "join sep (x # y # ys) = x @ sep # join sep (y # ys)"

text \<open>Decimal rendering of a non-negative integer, as a template literal renders it.\<close>

fun dec :: "nat \<Rightarrow> string" where
  "dec n = (if n < 10 then [''0123456789'' ! n]
            else dec (n div 10) @ [''0123456789'' ! (n mod 10)])"

declare dec.simps [simp del]

subsection \<open>The platform's regular expressions, for the patterns the script builds\<close>

text \<open>
  A \<open>RegExp\<close> object keeps its source and flags. The fragment of the ECMAScript
  pattern language modelled here is: pattern characters, the identity escape of a
  syntax character, the assertion \<^verbatim>\<open>\b\<close>, groups and alternation. A pattern outside
  the fragment (a quantifier, a class, a dot, an anchor, any other escape, unbalanced
  parentheses) is not interpreted: \<open>parsePattern\<close> returns \<open>None\<close>.
\<close>

datatype regexp = RegExp (source: jsstring) (flags: string)

text \<open>The syntax characters \<^verbatim>\<open>^ $ \ . * + ? ( ) [ ] { } |\<close>.\<close>

definition isSyntaxCharacter :: "nat \<Rightarrow> bool" where
  "isSyntaxCharacter c \<longleftrightarrow>
     c \<in> {94, 36, 92, 46, 42, 43, 63, 40, 41, 91, 93, 123, 125, 124}"

datatype rx = Lit nat | WordB | Group "rx list list"

text \<open>A disjunction is a list of alternatives, an alternative a list of terms. The
  parser keeps the enclosing groups on a stack: for each, the alternatives finished
  before the group and the terms of the alternative the group stands in.\<close>

fun parseRx ::
  "(rx list list \<times> rx list) list \<Rightarrow> rx list list \<Rightarrow> rx list \<Rightarrow> jsstring \<Rightarrow> rx list list option"
where
  "parseRx stk alts cur [] = (if stk = [] then Some (alts @ [cur]) else None)"
| "parseRx stk alts cur (c # cs) =
     (if c = 92 then
        (case cs of
           [] \<Rightarrow> None
         | d # ds \<Rightarrow>
             if d = 98 then parseRx stk alts (cur @ [WordB]) ds
             else if isSyntaxCharacter d then parseRx stk alts (cur @ [Lit d]) ds
             else None)
      else if c = 40 then parseRx ((alts, cur) # stk) [] [] cs
      else if c = 41 then
        (case stk of
           [] \<Rightarrow> None
         | (alts', cur') # stk' \<Rightarrow> parseRx stk' alts' (cur' @ [Group (alts @ [cur])]) cs)
      else if c = 124 then parseRx stk (alts @ [cur]) [] cs
      else if isSyntaxCharacter c then None
      else parseRx stk alts (cur @ [Lit c]) cs)"

definition parsePattern :: "jsstring \<Rightarrow> rx list list option" where
  "parsePattern p = parseRx [] [] [] p"

text \<open>
  Canonicalize of the ignore-case flag (without the unicode flag): a code unit is
  compared by its upper-case form. For ASCII this is written out; for the other code
  units the platform's Unicode table is the parameter \<open>up\<close> (the single-unit upper-case
  form, the unit itself where there is none), and a non-ASCII unit is never folded
  onto an ASCII one.
\<close>

definition canonicalize :: "(nat \<Rightarrow> nat) \<Rightarrow> nat \<Rightarrow> nat" where
  "canonicalize up c =
     (if c < 128 then (if 97 \<le> c \<and> c \<le> 122 then c - 32 else c)
      else (let cu = up c in if cu < 128 then c else cu))"

text \<open>Word characters are \<^verbatim>\<open>[A-Za-z0-9_]\<close>; \<^verbatim>\<open>\b\<close> holds at a position
  where exactly one of the two neighbouring units is a word character.\<close>

definition isWordChar :: "nat \<Rightarrow> bool" where
  "isWordChar c \<longleftrightarrow>
     (97 \<le> c \<and> c \<le> 122) \<or> (65 \<le> c \<and> c \<le> 90) \<or> (48 \<le> c \<and> c \<le> 57) \<or> c = 95"

definition isWordBoundary :: "jsstring \<Rightarrow> nat \<Rightarrow> bool" where
  "isWordBoundary inp e \<longleftrightarrow>
     ((0 < e \<and> e - 1 < length inp \<and> isWordChar (inp ! (e - 1)))
        \<noteq> (e < length inp \<and> isWordChar (inp ! e)))"

text \<open>The matcher: every end position the backtracking search can reach from a start
  position, in the order it reaches them.\<close>

fun ends_t :: "(nat \<Rightarrow> nat) \<Rightarrow> jsstring \<Rightarrow> rx \<Rightarrow> nat \<Rightarrow> nat list"
and ends_a :: "(nat \<Rightarrow> nat) \<Rightarrow> jsstring \<Rightarrow> rx list \<Rightarrow> nat \<Rightarrow> nat list"
and ends_d :: "(nat \<Rightarrow> nat) \<Rightarrow> jsstring \<Rightarrow> rx list list \<Rightarrow> nat \<Rightarrow> nat list"
where
  "ends_t cn inp (Lit c) i = (if i < length inp \<and> cn (inp ! i) = cn c then [Suc i] else [])"
| "ends_t cn inp WordB i = (if isWordBoundary inp i then [i] else [])"
| "ends_t cn inp (Group d) i = ends_d cn inp d i"
| "ends_a cn inp [] i = [i]"
| "ends_a cn inp (t # ts) i = concat (map (ends_a cn inp ts) (ends_t cn inp t i))"
| "ends_d cn inp [] i = []"
| "ends_d cn inp (a # as) i = ends_a cn inp a i @ ends_d cn inp as i"

text \<open>\<^verbatim>\<open>RegExp.prototype.test\<close> of a regular expression without the global and
  sticky flags: the search starts at every index from 0 to the length of the input.\<close>

definition RegExp_test :: "(nat \<Rightarrow> nat) \<Rightarrow> regexp \<Rightarrow> jsstring \<Rightarrow> bool option" where
  "RegExp_test up re inp =
     (case parsePattern (source re) of
        None \<Rightarrow> None
      | Some d \<Rightarrow>
          let cn = (if CHR ''i'' \<in> set (flags re) then canonicalize up else (\<lambda>c. c))
          in Some (list_ex (\<lambda>i. ends_d cn inp d i \<noteq> []) [0..<Suc (length inp)]))"

subsection \<open>buildRegex\<close>

text \<open>\<^verbatim>\<open>k.replace(/[.*+?^${}()|[\]\\]/g, '\\$&')\<close>: the class of the replaced
  characters, and the replacement of each by a backslash and itself.\<close>

definition escapedClass :: "nat \<Rightarrow> bool" where
  "escapedClass c \<longleftrightarrow>
     c \<in> {46, 42, 43, 63, 94, 36, 123, 125, 40, 41, 124, 91, 93, 92}"

definition escapeRegex :: "jsstring \<Rightarrow> jsstring" where
  "escapeRegex k = concat (map (\<lambda>c. if escapedClass c then [92, c] else [c]) k)"

text \<open>The keywords that survive \<^verbatim>\<open>.map(k => String(k || '').trim()).filter(Boolean)\<close>.\<close>

definition cleaned :: "jsstring list \<Rightarrow> jsstring list" where
  "cleaned keywords = filter (\<lambda>k. k \<noteq> []) (map trim keywords)"

text \<open>\<open>keywords\<close> is \<open>None\<close> when it is not an array; \<open>partial\<close> is tested for
  truthiness.\<close>

definition buildRegex :: "jsstring list option \<Rightarrow> bool option \<Rightarrow> regexp option" where
  "buildRegex keywords partial =
     (case keywords of
        None \<Rightarrow> None
      | Some ks \<Rightarrow>
          if length ks = 0 then None
          else
            let escaped = map escapeRegex (cleaned ks) in
            if length escaped = 0 then None
            else
              let pattern =
                (if partial = Some True then [40] @ join 124 escaped @ [41]
                 else [92, 98, 40] @ join 124 escaped @ [41, 92, 98])
              in Some (RegExp pattern ''i''))"

text \<open>The words of the specification: a keyword occurs in a text at an index, up to
  case.\<close>

definition occursAt :: "(nat \<Rightarrow> nat) \<Rightarrow> jsstring \<Rightarrow> jsstring \<Rightarrow> nat \<Rightarrow> bool" where
  "occursAt cn k inp i \<longleftrightarrow>
     i + length k \<le> length inp \<and> map cn (take (length k) (drop i inp)) = map cn k"

subsection \<open>Elements\<close>

text \<open>
  An element is the part of its state the script reads and writes (the class list,
  \<^verbatim>\<open>dataset.sbMaskMode\<close>, the inline style declarations by property name with value
  and priority, the click listeners the script adds) and its child nodes. Every click
  listener of the script calls \<open>unmaskElement\<close> on the element that was masked; only
  its \<open>once\<close> option differs. Every value the script passes to \<open>setProperty\<close> is a
  valid one for its property, so no declaration is refused. A declaration is kept
  under the property name the script uses; the expansion of a shorthand into its
  longhands is not modelled.
\<close>

datatype listener = Listener (once: bool)

record element_state =
  classList :: "string list"
  sbMaskMode :: "string option"
  style :: "string \<rightharpoonup> string \<times> string"
  clickListeners :: "listener list"

datatype node = TextNode jsstring | Element element_state "node list"

type_synonym element = "element_state \<times> node list"

datatype 'a ref = Null | Undefined | Obj 'a

definition setProperty :: "string \<Rightarrow> string \<Rightarrow> string \<Rightarrow> element_state \<Rightarrow> element_state" where
  "setProperty name v priority a =
     a\<lparr>style := (if v = [] then (style a)(name := None) else (style a)(name \<mapsto> (v, priority)))\<rparr>"

definition removeProperty :: "string \<Rightarrow> element_state \<Rightarrow> element_state" where
  "removeProperty name a = a\<lparr>style := (style a)(name := None)\<rparr>"

definition addClickListener :: "listener \<Rightarrow> element_state \<Rightarrow> element_state" where
  "addClickListener l a = a\<lparr>clickListeners := clickListeners a @ [l]\<rparr>"

text \<open>Paths: a node below an element is named by the child indices that lead to it.
  \<open>querySelector c i kids\<close> is the first element in document order, among \<open>kids\<close>
  (whose first node has index \<open>i\<close>) and their descendants, that carries class \<open>c\<close>;
  \<open>removeAt\<close> is \<^verbatim>\<open>remove()\<close> of the node at a path.\<close>

fun querySelector :: "string \<Rightarrow> nat \<Rightarrow> node list \<Rightarrow> nat list option" where
  "querySelector c i [] = None"
| "querySelector c i (TextNode s # ns) = querySelector c (Suc i) ns"
| "querySelector c i (Element a cs # ns) =
     (if c \<in> set (classList a) then Some [i]
      else case querySelector c 0 cs of
             Some p \<Rightarrow> Some (i # p)
           | None \<Rightarrow> querySelector c (Suc i) ns)"

fun removeAt :: "nat list \<Rightarrow> node list \<Rightarrow> node list" where
  "removeAt [] kids = kids"
| "removeAt [i] kids = take i kids @ drop (Suc i) kids"
| "removeAt (i # j # p) kids =
     (if i < length kids then
        (case kids ! i of
           Element a cs \<Rightarrow> kids[i := Element a (removeAt (j # p) cs)]
         | TextNode s \<Rightarrow> kids)
      else kids)"

fun nodeAt :: "node list \<Rightarrow> nat list \<Rightarrow> node option" where
  "nodeAt kids [] = None"
| "nodeAt kids [i] = (if i < length kids then Some (kids ! i) else None)"
| "nodeAt kids (i # j # p) =
     (if i < length kids then
        (case kids ! i of
           Element a cs \<Rightarrow> nodeAt cs (j # p)
         | TextNode s \<Rightarrow> None)
      else None)"

subsection \<open>maskElement and unmaskElement\<close>

text \<open>\<^verbatim>\<open>Number(x) || d\<close> on an integer or \<open>undefined\<close>: \<open>NaN\<close> and \<open>0\<close> are falsy.\<close>

definition numberOr :: "int option \<Rightarrow> int \<Rightarrow> int" where
  "numberOr x d = (case x of None \<Rightarrow> d | Some n \<Rightarrow> if n = 0 then d else n)"

definition blurRadius :: "int option \<Rightarrow> int" where
  "blurRadius intensity = max 2 (numberOr intensity 8)"

definition collapseHeight :: "int option \<Rightarrow> int" where
  "collapseHeight intensity = max 0 (numberOr intensity 0)"

text \<open>The overlay of the collapse mode: a \<^verbatim>\<open>div\<close> of class \<^verbatim>\<open>sb-overlay\<close> with its
  label, the declarations of its \<^verbatim>\<open>cssText\<close> and a click listener (not once).\<close>

definition overlayLabel :: jsstring where
  "overlayLabel = str ''Spoiler hidden '' @ [8212] @ str '' click to reveal''"

definition overlay :: node where
  "overlay =
     Element
       \<lparr>classList = [''sb-overlay''],
        sbMaskMode = None,
        style = map_of
          [(''position'', (''absolute'', [])), (''inset'', (''0'', [])),
           (''display'', (''flex'', [])), (''align-items'', (''center'', [])),
           (''justify-content'', (''center'', [])), (''font-weight'', (''600'', [])),
           (''background'', (''rgba(0,0,0,.6)'', [])), (''color'', (''#fff'', [])),
           (''cursor'', (''pointer'', []))],
        clickListeners = [Listener False]\<rparr>
       [TextNode overlayLabel]"

text \<open>The string a \<^verbatim>\<open>dataset\<close> entry holds after \<open>mode\<close> is assigned to it.\<close>

definition datasetString :: "string option \<Rightarrow> string" where
  "datasetString mode = (case mode of None \<Rightarrow> ''undefined'' | Some m \<Rightarrow> m)"

definition maskElement ::
  "element ref \<Rightarrow> string option \<Rightarrow> int option \<Rightarrow> bool option \<Rightarrow> element ref"
where
  "maskElement el mode intensity debug =
     (case el of
        Obj (a, kids) \<Rightarrow>
          if ''sb-masked'' \<in> set (classList a) then el
          else
            let a1 = a\<lparr>classList := classList a @ [''sb-masked''],
                       sbMaskMode := Some (datasetString mode)\<rparr>;
                switched =
                  (if mode = Some ''blackout'' then
                     (setProperty ''filter'' ''none'' ''important''
                       (setProperty ''text-shadow'' ''none'' ''important''
                         (setProperty ''background'' ''#000'' ''important''
                           (setProperty ''color'' ''transparent'' ''important'' a1))),
                      kids)
                   else if mode = Some ''collapse'' then
                     (setProperty ''position'' ''relative'' ''important''
                       (setProperty ''overflow'' ''hidden'' ''important''
                         (setProperty ''max-height''
                            (dec (nat (collapseHeight intensity)) @ ''px'') ''important'' a1)),
                      kids @ [overlay])
                   else
                     (addClickListener (Listener True)
                       (setProperty ''cursor'' ''pointer'' ''important''
                         (setProperty ''text-shadow'' ''0 0 12px rgba(0,0,0,.5)'' ''important''
                           (setProperty ''filter''
                              (''blur('' @ dec (nat (blurRadius intensity)) @ ''px)'')
                              ''important'' a1))),
                      kids));
                a3 = (if debug = Some True
                      then setProperty ''outline'' ''2px dashed #ff4d4f'' ''important'' (fst switched)
                      else fst switched)
            in Obj (a3, snd switched)
      | _ \<Rightarrow> el)"

definition unmaskElement :: "element ref \<Rightarrow> element ref" where
  "unmaskElement el =
     (case el of
        Obj (a, kids) \<Rightarrow>
          let a1 = a\<lparr>classList := removeAll ''sb-masked'' (classList a)\<rparr>;
              a2 = removeProperty ''position''
                    (removeProperty ''overflow''
                      (removeProperty ''max-height''
                        (removeProperty ''outline''
                          (removeProperty ''text-shadow''
                            (removeProperty ''background''
                              (removeProperty ''color''
                                (removeProperty ''filter'' a1)))))))
          in Obj (a2,
                  case querySelector ''sb-overlay'' 0 kids of
                    None \<Rightarrow> kids
                  | Some p \<Rightarrow> removeAt p kids)
      | _ \<Rightarrow> el)"


subsection \<open>textNodesUnder\<close>

text \<open>
  The computed style of an element is the platform's answer for it: the parameter
  \<open>getComputedStyle\<close> gives, for the path of an element below the root, its computed
  visibility and display, or \<open>None\<close> where the document has no view. The tree walker
  shows text nodes only: an element is not offered to the filter and its children are
  visited. The produced sequence holds the paths of the accepted text nodes, in
  document order.
\<close>

record computed_style =
  visibility :: string
  display :: string

datatype filter_result = FILTER_ACCEPT | FILTER_REJECT

definition acceptNode ::
  "(nat list \<Rightarrow> computed_style option) \<Rightarrow> jsstring \<Rightarrow> nat list option \<Rightarrow> filter_result"
where
  "acceptNode getComputedStyle nodeValue parentElement =
     (let text = trim nodeValue in
      if text = [] \<or> length text < 2 then FILTER_REJECT
      else
        (case parentElement of
           None \<Rightarrow> FILTER_REJECT
         | Some parent \<Rightarrow>
             (case getComputedStyle parent of
                None \<Rightarrow> FILTER_REJECT
              | Some st \<Rightarrow>
                  if visibility st = ''hidden'' \<or> display st = ''none'' then FILTER_REJECT
                  else FILTER_ACCEPT)))"

fun walk ::
  "(nat list \<Rightarrow> computed_style option) \<Rightarrow> nat list \<Rightarrow> nat \<Rightarrow> node list \<Rightarrow> nat list list"
where
  "walk gcs parent i [] = []"
| "walk gcs parent i (TextNode s # ns) =
     (if acceptNode gcs s (Some parent) = FILTER_ACCEPT then [parent @ [i]] else [])
     @ walk gcs parent (Suc i) ns"
| "walk gcs parent i (Element a cs # ns) =
     walk gcs (parent @ [i]) 0 cs @ walk gcs parent (Suc i) ns"

definition textNodesUnder :: "(nat list \<Rightarrow> computed_style option) \<Rightarrow> element \<Rightarrow> nat list list" where
  "textNodesUnder gcs root = walk gcs [] 0 (snd root)"

text \<open>The words of the specification, for the children \<open>kids\<close> of the element at
  \<open>parent\<close>, the first of them at index \<open>i\<close>: the path leads below one of them to a
  text node that the filter accepts.\<close>

definition accepted ::
  "(nat list \<Rightarrow> computed_style option) \<Rightarrow> nat list \<Rightarrow> nat \<Rightarrow> node list \<Rightarrow> nat list \<Rightarrow> bool"
where
  "accepted gcs parent i kids p \<longleftrightarrow>
     (\<exists>j r s. p = parent @ (i + j) # r \<and> nodeAt kids (j # r) = Some (TextNode s)
        \<and> acceptNode gcs s (Some (butlast p)) = FILTER_ACCEPT)"

subsection \<open>Settings\<close>

text \<open>
  The settings object, one field per key; a field is \<open>None\<close> where the object has no
  such property or holds \<open>undefined\<close> there. The same type serves for the partial
  objects that arrive: the items of \<^verbatim>\<open>chrome.storage.sync.get\<close> and the payload of a
  message. A message is delivered as JSON, which has no \<open>undefined\<close>: a key of a
  payload is either absent or carries a value.
\<close>

datatype site_rule = SiteRule (rule_enabled: "bool option")

record settings =
  enabled :: "bool option"
  snoozeUntil :: "int option"
  keywords' :: "jsstring list option"
  mode :: "string option"
  intensity :: "int option"
  partial :: "bool option"
  highlightDebug :: "bool option"
  siteRules :: "(string \<rightharpoonup> site_rule) option"

definition DEFAULTS :: settings where
  "DEFAULTS =
     \<lparr>enabled = Some True, snoozeUntil = Some 0, keywords' = Some [], mode = Some ''blur'',
      intensity = Some 8, partial = Some False, highlightDebug = Some False,
      siteRules = Some Map.empty\<rparr>"

definition emptyObject :: settings where
  "emptyObject =
     \<lparr>enabled = None, snoozeUntil = None, keywords' = None, mode = None, intensity = None,
      partial = None, highlightDebug = None, siteRules = None\<rparr>"

text \<open>One property of \<^verbatim>\<open>Object.assign(target, src)\<close> and of the spread
  \<^verbatim>\<open>{...target, ...src}\<close>: a property of the source overwrites, an absent one
  leaves the target's.\<close>

definition overwrite :: "'a option \<Rightarrow> 'a option \<Rightarrow> 'a option" where
  "overwrite old new = (case new of None \<Rightarrow> old | Some v \<Rightarrow> Some v)"

definition assign :: "settings \<Rightarrow> settings \<Rightarrow> settings" where
  "assign target src =
     \<lparr>enabled = overwrite (enabled target) (enabled src),
      snoozeUntil = overwrite (snoozeUntil target) (snoozeUntil src),
      keywords' = overwrite (keywords' target) (keywords' src),
      mode = overwrite (mode target) (mode src),
      intensity = overwrite (intensity target) (intensity src),
      partial = overwrite (partial target) (partial src),
      highlightDebug = overwrite (highlightDebug target) (highlightDebug src),
      siteRules = overwrite (siteRules target) (siteRules src)\<rparr>"

text \<open>\<open>loadSettings\<close>, given the items the store's callback delivers:
  \<^verbatim>\<open>state = { ...DEFAULTS, ...items }\<close>.\<close>

definition loadSettings :: "settings \<Rightarrow> settings" where
  "loadSettings items = assign DEFAULTS items"

text \<open>The message listener: \<^verbatim>\<open>msg?.type === 'SB_SETTINGS_UPDATED'\<close>, then
  \<^verbatim>\<open>Object.assign(state, msg.payload || {})\<close>.\<close>

record message =
  msg_type :: string
  payload :: "settings option"

definition onMessage :: "settings \<Rightarrow> message option \<Rightarrow> settings" where
  "onMessage state msg =
     (case msg of
        None \<Rightarrow> state
      | Some m \<Rightarrow>
          if msg_type m = ''SB_SETTINGS_UPDATED''
          then assign state (case payload m of None \<Rightarrow> emptyObject | Some p \<Rightarrow> p)
          else state)"

text \<open>
  The storage listener of the background script. \<open>changes\<close> holds, for each changed
  key, its change; the payload gets the key with the change's \<open>newValue\<close>, which is
  \<open>undefined\<close> for a removed key, and such a key does not survive the delivery of
  the message. The result is the message the tabs receive, if any.
\<close>

datatype 'a change = Change (oldValue: "'a option") (newValue: "'a option")

record changes =
  ch_enabled :: "bool change option"
  ch_snoozeUntil :: "int change option"
  ch_keywords :: "jsstring list change option"
  ch_mode :: "string change option"
  ch_intensity :: "int change option"
  ch_partial :: "bool change option"
  ch_highlightDebug :: "bool change option"
  ch_siteRules :: "(string \<rightharpoonup> site_rule) change option"

definition delivered :: "'a change option \<Rightarrow> 'a option" where
  "delivered c = (case c of None \<Rightarrow> None | Some ch \<Rightarrow> newValue ch)"

definition onChanged :: "changes \<Rightarrow> string \<Rightarrow> message option" where
  "onChanged chs area =
     (if area \<noteq> ''sync'' then None
      else Some
        \<lparr>msg_type = ''SB_SETTINGS_UPDATED'',
         payload = Some
           \<lparr>enabled = delivered (ch_enabled chs),
            snoozeUntil = delivered (ch_snoozeUntil chs),
            keywords' = delivered (ch_keywords chs),
            mode = delivered (ch_mode chs),
            intensity = delivered (ch_intensity chs),
            partial = delivered (ch_partial chs),
            highlightDebug = delivered (ch_highlightDebug chs),
            siteRules = delivered (ch_siteRules chs)\<rparr>\<rparr>)"

text \<open>No field of the snapshot is undefined.\<close>

definition populated :: "settings \<Rightarrow> bool" where
  "populated s \<longleftrightarrow>
     enabled s \<noteq> None \<and> snoozeUntil s \<noteq> None \<and> keywords' s \<noteq> None \<and> mode s \<noteq> None
     \<and> intensity s \<noteq> None \<and> partial s \<noteq> None \<and> highlightDebug s \<noteq> None
     \<and> siteRules s \<noteq> None"

subsection \<open>The scan and its gate\<close>

text \<open>\<open>scan\<close> returns at once without a matcher; otherwise it walks the text nodes
  of the body with the matcher. The outcome records which of the two happens.\<close>

datatype scan_outcome = Skipped | Walked regexp

definition scan :: "regexp option \<Rightarrow> scan_outcome" where
  "scan regex = (case regex of None \<Rightarrow> Skipped | Some r \<Rightarrow> Walked r)"

text \<open>The locals of the function \<open>runScan\<close> debounces.
  \<^verbatim>\<open>Number(state.snoozeUntil) > now\<close> is false for \<open>NaN\<close>;
  \<^verbatim>\<open>location.hostname.replace(/^www\./, '')\<close> drops one leading \<^verbatim>\<open>www.\<close>;
  \<^verbatim>\<open>siteRule?.enabled ?? true\<close> defaults an absent rule and an absent field.\<close>

definition snoozed :: "settings \<Rightarrow> int \<Rightarrow> bool" where
  "snoozed state now = (case snoozeUntil state of None \<Rightarrow> False | Some u \<Rightarrow> u > now)"

definition site :: "string \<Rightarrow> string" where
  "site hostname = (if take 4 hostname = ''www.'' then drop 4 hostname else hostname)"

definition siteRule :: "settings \<Rightarrow> string \<Rightarrow> site_rule option" where
  "siteRule state hostname =
     (case siteRules state of None \<Rightarrow> None | Some rules \<Rightarrow> rules (site hostname))"

definition siteEnabled :: "settings \<Rightarrow> string \<Rightarrow> bool" where
  "siteEnabled state hostname =
     (case siteRule state hostname of
        None \<Rightarrow> True
      | Some r \<Rightarrow> (case rule_enabled r of None \<Rightarrow> True | Some b \<Rightarrow> b))"

text \<open>The gate is the negation of the early return's condition.\<close>

definition gateDenies :: "settings \<Rightarrow> string \<Rightarrow> int \<Rightarrow> bool" where
  "gateDenies state hostname now \<longleftrightarrow>
     enabled state \<noteq> Some True \<or> snoozed state now \<or> \<not> siteEnabled state hostname"

definition runScanBody :: "settings \<Rightarrow> string \<Rightarrow> int \<Rightarrow> scan_outcome" where
  "runScanBody state hostname now =
     (if gateDenies state hostname now then Skipped
      else scan (buildRegex (keywords' state) (partial state)))"

subsection \<open>debounce\<close>

text \<open>
  The closure of \<open>debounce\<close> owns one timer handle. Its state is the due time of the
  pending timeout, if one is pending. A call at time \<open>now\<close> clears the pending timeout
  and sets a new one, due \<open>wait\<close> later. Time is in milliseconds; a timeout fires at its
  due time, and one due no later than a call fires before the call.
  \<open>runs wait t calls\<close> lists the times at which the debounced function runs, for the
  calls at the times \<open>calls\<close> and nothing thereafter.
\<close>

definition debounced_call :: "nat \<Rightarrow> nat \<Rightarrow> nat option \<Rightarrow> nat option" where
  "debounced_call wait now t = Some (now + wait)"

fun runs :: "nat \<Rightarrow> nat option \<Rightarrow> nat list \<Rightarrow> nat list" where
  "runs wait t [] = (case t of None \<Rightarrow> [] | Some due \<Rightarrow> [due])"
| "runs wait t (now # calls) =
     (case t of
        None \<Rightarrow> runs wait (debounced_call wait now None) calls
      | Some due \<Rightarrow>
          if due \<le> now then due # runs wait (debounced_call wait now None) calls
          else runs wait (debounced_call wait now (Some due)) calls)"

text \<open>\<open>runScan\<close> is \<open>debounce\<close> of the scan with a wait of 300.\<close>

definition runScan_runs :: "nat list \<Rightarrow> nat list" where
  "runScan_runs calls = runs 300 None calls"

text \<open>A burst: calls in time order, each less than \<open>wait\<close> after the one before.\<close>

fun burst :: "nat \<Rightarrow> nat list \<Rightarrow> bool" where
  "burst wait [] = True"
| "burst wait [x] = True"
| "burst wait (x # y # ys) = (x \<le> y \<and> y < x + wait \<and> burst wait (y # ys))"

subsection \<open>Observations and sample inputs\<close>

text \<open>What an observer reads off an element reference: an inline style declaration
  and the child nodes.\<close>

definition elementStyle :: "element ref \<Rightarrow> string \<Rightarrow> (string \<times> string) option" where
  "elementStyle el name = (case el of Obj (a, kids) \<Rightarrow> style a name | _ \<Rightarrow> None)"


text \<open>An element with no class, no inline style, no listener and no child, and one
  with an inline colour.\<close>

definition plainState :: element_state where
  "plainState = \<lparr>classList = [], sbMaskMode = None, style = Map.empty, clickListeners = []\<rparr>"



text \<open>Settings with a rule that disables \<^verbatim>\<open>example.com\<close> and a rule without the
  \<open>enabled\<close> field for \<^verbatim>\<open>plain.org\<close>.\<close>

definition sampleSettings :: settings where
  "sampleSettings =
     DEFAULTS\<lparr>siteRules :=
       Some [''example.com'' \<mapsto> SiteRule (Some False), ''plain.org'' \<mapsto> SiteRule None]\<rparr>"

text \<open>A body with a short text node, a visible paragraph and a hidden one, and the
  computed styles of the body and of the two paragraphs.\<close>

definition sampleBody :: element where
  "sampleBody =
     (plainState,
      [TextNode (str '' a ''),
       Element plainState [TextNode (str ''Endgame spoilers'')],
       Element plainState [TextNode (str ''hidden text'')]])"

definition sampleStyles :: "nat list \<Rightarrow> computed_style option" where
  "sampleStyles path =
     (if path = [] \<or> path = [1] then Some \<lparr>visibility = ''visible'', display = ''block''\<rparr>
      else if path = [2] then Some \<lparr>visibility = ''hidden'', display = ''block''\<rparr>
      else None)"

section \<open>Properties\<close>

subsection \<open>The masking engine\<close>

text \<open>
  Claim C10. Calling \<open>maskElement\<close> or \<open>unmaskElement\<close> with a \<open>null\<close> or
  \<open>undefined\<close> element returns at once: the reference comes back as it was, for
  every mode, intensity and debug flag.
\<close>

theorem null_element_noop:
  "maskElement Null md inten dbg = Null
   \<and> maskElement Undefined md inten dbg = Undefined
   \<and> unmaskElement Null = Null
   \<and> unmaskElement Undefined = Undefined"
  by (simp add: maskElement_def unmaskElement_def)

lemma maskElement_masked:
  "''sb-masked'' \<in> set (classList a) \<Longrightarrow>
   maskElement (Obj (a, kids)) md inten dbg = Obj (a, kids)"
  by (simp add: maskElement_def)

lemma maskElement_marks:
  "''sb-masked'' \<notin> set (classList a) \<Longrightarrow>
   \<exists>a' kids'. maskElement (Obj (a, kids)) md inten dbg = Obj (a', kids')
      \<and> ''sb-masked'' \<in> set (classList a')"
  by (simp add: maskElement_def Let_def setProperty_def addClickListener_def)

text \<open>
  Claim C4. \<open>maskElement\<close> on an element that already carries the class
  \<^verbatim>\<open>sb-masked\<close> changes nothing of the element (style, children, listeners, recorded
  mode), whatever the mode, intensity and debug flag of the call; hence a second call
  after any first call returns what the first call returned.
\<close>

theorem maskElement_idempotent:
  "(''sb-masked'' \<in> set (classList a) \<longrightarrow>
      maskElement (Obj (a, kids)) md inten dbg = Obj (a, kids))
   \<and> maskElement (maskElement el md0 inten0 dbg0) md inten dbg
       = maskElement el md0 inten0 dbg0"
proof
  show "''sb-masked'' \<in> set (classList a) \<longrightarrow>
      maskElement (Obj (a, kids)) md inten dbg = Obj (a, kids)"
    by (simp add: maskElement_masked)
next
  show "maskElement (maskElement el md0 inten0 dbg0) md inten dbg
       = maskElement el md0 inten0 dbg0"
  proof (cases el)
    case Null
    then show ?thesis by (simp add: maskElement_def)
  next
    case Undefined
    then show ?thesis by (simp add: maskElement_def)
  next
    case (Obj e)
    obtain b kids0 where e: "e = (b, kids0)" by (cases e)
    show ?thesis
    proof (cases "''sb-masked'' \<in> set (classList b)")
      case True
      then show ?thesis by (simp add: Obj e maskElement_masked)
    next
      case False
      from maskElement_marks[OF False, of kids0 md0 inten0 dbg0]
      obtain a' kids' where
        m: "maskElement (Obj (b, kids0)) md0 inten0 dbg0 = Obj (a', kids')"
        and c: "''sb-masked'' \<in> set (classList a')" by blast
      show ?thesis by (simp add: Obj e m maskElement_masked[OF c])
    qed
  qed
qed

text \<open>An unmasked element collapsed and then masked again as blur; and an element
  that carries the class from the start.\<close>

theorem maskElement_idempotent_witness:
  "maskElement (maskElement (Obj (plainState, [])) (Some ''collapse'') (Some 8) (Some True))
      (Some ''blur'') (Some 3) None
   = maskElement (Obj (plainState, [])) (Some ''collapse'') (Some 8) (Some True)
   \<and> ''sb-masked'' \<in> set (classList (plainState\<lparr>classList := [''sb-masked'']\<rparr>))
   \<and> maskElement (Obj (plainState\<lparr>classList := [''sb-masked'']\<rparr>, [])) (Some ''blur'') (Some 3) None
       = Obj (plainState\<lparr>classList := [''sb-masked'']\<rparr>, [])"
  using maskElement_idempotent[of "plainState\<lparr>classList := [''sb-masked'']\<rparr>" "[]" "Some ''blur''" "Some 3" None
      "Obj (plainState, [])" "Some ''collapse''" "Some 8" "Some True"]
  by simp

lemma dec_8: "dec 8 = ''8''"
  by (simp add: dec.simps)

lemma dec_2: "dec 2 = ''2''"
  by (simp add: dec.simps)

text \<open>
  Claim C7, as amended. For the blur mode and for every mode other than blackout and
  collapse, \<open>maskElement\<close> on an unmasked element sets the filter to a blur of
  \<open>blurRadius intensity\<close> pixels. The radius is at least 2; it is \<open>max 2 n\<close> for an
  intensity \<open>n\<close> other than 0; it is the default 8 for the intensity 0 and for an
  undefined intensity; for the intensity 8 it is 8.
\<close>

theorem blur_radius:
  assumes "''sb-masked'' \<notin> set (classList a)"
    and "md \<noteq> Some ''blackout''" and "md \<noteq> Some ''collapse''"
  shows "elementStyle (maskElement (Obj (a, kids)) md inten dbg) ''filter''
           = Some (''blur('' @ dec (nat (blurRadius inten)) @ ''px)'', ''important'')
         \<and> 2 \<le> blurRadius inten
         \<and> (\<forall>n. inten = Some n \<and> n \<noteq> 0 \<longrightarrow> blurRadius inten = max 2 n)
         \<and> (inten = Some 0 \<or> inten = None \<longrightarrow> blurRadius inten = 8)
         \<and> blurRadius (Some 8) = 8"
  using assms
  by (auto simp: maskElement_def Let_def elementStyle_def setProperty_def addClickListener_def
      blurRadius_def numberOr_def)

text \<open>Intensity 8 in blur mode, and intensity 1 in an unrecognised mode.\<close>

theorem blur_radius_witness:
  "elementStyle (maskElement (Obj (plainState, [])) (Some ''blur'') (Some 8) None) ''filter''
     = Some (''blur(8px)'', ''important'')
   \<and> elementStyle (maskElement (Obj (plainState, [])) (Some ''fade'') (Some 1) None) ''filter''
     = Some (''blur(2px)'', ''important'')"
proof -
  have p: "''sb-masked'' \<notin> set (classList plainState)" by (simp add: plainState_def)
  have b8: "nat (blurRadius (Some 8)) = 8" by (simp add: blurRadius_def numberOr_def)
  have b1: "nat (blurRadius (Some 1)) = 2" by (simp add: blurRadius_def numberOr_def)
  show ?thesis
    using blur_radius[OF p, of "Some ''blur''" "[]" "Some 8" None]
      blur_radius[OF p, of "Some ''fade''" "[]" "Some 1" None]
    by (simp add: b8 b1 dec_8 dec_2)
qed

text \<open>The claim as first stated gives the radius \<open>max 2 0 = 2\<close> for the intensity 0;
  the script blurs by 8 pixels there, since \<^verbatim>\<open>Number(0) || 8\<close> is 8.\<close>

theorem blur_radius_zero_counterexample:
  "elementStyle (maskElement (Obj (plainState, [])) (Some ''blur'') (Some 0) None) ''filter''
     = Some (''blur(8px)'', ''important'')
   \<and> blurRadius (Some 0) \<noteq> max 2 0"
  by (simp add: maskElement_def Let_def elementStyle_def setProperty_def addClickListener_def
      blurRadius_def numberOr_def plainState_def dec_8)


















subsection \<open>The matcher builder\<close>

lemma parseRx_escape:
  "parseRx stk alts cur (escapeRegex k @ rest) = parseRx stk alts (cur @ map Lit k) rest"
proof (induction k arbitrary: cur)
  case Nil
  then show ?case by (simp add: escapeRegex_def)
next
  case (Cons c k)
  have e: "escapeRegex (c # k) = (if escapedClass c then [92, c] else [c]) @ escapeRegex k"
    by (simp add: escapeRegex_def)
  show ?case
  proof (cases "escapedClass c")
    case True
    then have "c \<noteq> 98" "isSyntaxCharacter c"
      by (auto simp: escapedClass_def isSyntaxCharacter_def)
    then show ?thesis using True Cons.IH[of "cur @ [Lit c]"] by (simp add: e)
  next
    case False
    then have "c \<noteq> 92" "c \<noteq> 40" "c \<noteq> 41" "c \<noteq> 124" "\<not> isSyntaxCharacter c"
      by (auto simp: escapedClass_def isSyntaxCharacter_def)
    then show ?thesis using False Cons.IH[of "cur @ [Lit c]"] by (simp add: e)
  qed
qed

lemma parseRx_join:
  "parseRx ((alts', cur') # stk) alts [] (join 124 (map escapeRegex (k # ks)) @ 41 # rest)
   = parseRx stk alts' (cur' @ [Group (alts @ map (map Lit) (k # ks))]) rest"
proof (induction ks arbitrary: k alts)
  case Nil
  show ?case using parseRx_escape[of "(alts', cur') # stk" alts "[]" k "41 # rest"] by simp
next
  case (Cons k' ks)
  have "parseRx ((alts', cur') # stk) alts [] (join 124 (map escapeRegex (k # k' # ks)) @ 41 # rest)
      = parseRx ((alts', cur') # stk) alts [] (escapeRegex k @ 124 # (join 124 (map escapeRegex (k' # ks)) @ 41 # rest))"
    by simp
  also have "\<dots> = parseRx ((alts', cur') # stk) alts (map Lit k) (124 # (join 124 (map escapeRegex (k' # ks)) @ 41 # rest))"
    using parseRx_escape[of "(alts', cur') # stk" alts "[]" k] by simp
  also have "\<dots> = parseRx ((alts', cur') # stk) (alts @ [map Lit k]) [] (join 124 (map escapeRegex (k' # ks)) @ 41 # rest)"
    by simp
  also have "\<dots> = parseRx stk alts' (cur' @ [Group ((alts @ [map Lit k]) @ map (map Lit) (k' # ks))]) rest"
    by (rule Cons.IH)
  finally show ?case by simp
qed

lemma parse_partial:
  assumes "ks \<noteq> []"
  shows "parsePattern ([40] @ join 124 (map escapeRegex ks) @ [41]) = Some [[Group (map (map Lit) ks)]]"
proof -
  obtain k ks' where ks: "ks = k # ks'" using assms by (cases ks) auto
  show ?thesis
    unfolding parsePattern_def ks
    using parseRx_join[of "[]" "[]" "[]" "[]" k ks' "[]"] by simp
qed

lemma parse_bounded:
  assumes "ks \<noteq> []"
  shows "parsePattern ([92, 98, 40] @ join 124 (map escapeRegex ks) @ [41, 92, 98])
         = Some [[WordB, Group (map (map Lit) ks), WordB]]"
proof -
  obtain k ks' where ks: "ks = k # ks'" using assms by (cases ks) auto
  show ?thesis
    unfolding parsePattern_def ks
    using parseRx_join[of "[]" "[WordB]" "[]" "[]" k ks' "[92, 98]"] by simp
qed

lemma occursAt_Nil: "occursAt cn [] inp i \<longleftrightarrow> i \<le> length inp"
  by (simp add: occursAt_def)

lemma occursAt_Cons:
  "occursAt cn (c # k) inp i \<longleftrightarrow> i < length inp \<and> cn (inp ! i) = cn c \<and> occursAt cn k inp (Suc i)"
proof (cases "i < length inp")
  case True
  then have d: "drop i inp = inp ! i # drop (Suc i) inp" by (simp add: Cons_nth_drop_Suc)
  show ?thesis using True by (auto simp: occursAt_def d)
next
  case False
  then show ?thesis by (simp add: occursAt_def)
qed

lemma ends_a_Lit:
  "i \<le> length inp \<Longrightarrow>
   ends_a cn inp (map Lit k) i = (if occursAt cn k inp i then [i + length k] else [])"
proof (induction k arbitrary: i)
  case Nil
  then show ?case by (simp add: occursAt_Nil)
next
  case (Cons c k)
  show ?case
  proof (cases "i < length inp \<and> cn (inp ! i) = cn c")
    case True
    then show ?thesis using Cons.IH[of "Suc i"] by (simp add: occursAt_Cons)
  next
    case False
    then show ?thesis by (auto simp: occursAt_Cons)
  qed
qed

lemma ends_d_Lits:
  "i \<le> length inp \<Longrightarrow>
   ends_d cn inp (map (map Lit) ks) i
     = map (\<lambda>k. i + length k) (filter (\<lambda>k. occursAt cn k inp i) ks)"
  by (induction ks) (simp_all add: ends_a_Lit)

lemma occursAt_le: "occursAt cn k inp i \<Longrightarrow> i + length k \<le> length inp"
  by (simp add: occursAt_def)

lemma list_ex_upto: "list_ex P [0..<Suc n] \<longleftrightarrow> (\<exists>i\<le>n. P i)"
  unfolding list_ex_iff by (metis atLeast0LessThan lessThan_iff less_Suc_eq_le set_upt)

lemma test_partial:
  "list_ex (\<lambda>i. ends_d cn inp [[Group (map (map Lit) ks)]] i \<noteq> []) [0..<Suc (length inp)]
   \<longleftrightarrow> (\<exists>k \<in> set ks. \<exists>i. occursAt cn k inp i)"
proof -
  have step: "ends_d cn inp [[Group (map (map Lit) ks)]] i \<noteq> [] \<longleftrightarrow> (\<exists>k \<in> set ks. occursAt cn k inp i)"
    if "i \<le> length inp" for i
    using that by (auto simp: ends_d_Lits filter_empty_conv)
  have le: "i \<le> length inp" if "occursAt cn k inp i" for k i
    using occursAt_le[OF that] by simp
  show ?thesis
    unfolding list_ex_upto using step le by blast
qed

lemma test_bounded:
  "list_ex (\<lambda>i. ends_d cn inp [[WordB, Group (map (map Lit) ks), WordB]] i \<noteq> []) [0..<Suc (length inp)]
   \<longleftrightarrow> (\<exists>k \<in> set ks. \<exists>i. occursAt cn k inp i \<and> isWordBoundary inp i
          \<and> isWordBoundary inp (i + length k))"
proof -
  have step: "ends_d cn inp [[WordB, Group (map (map Lit) ks), WordB]] i \<noteq> []
        \<longleftrightarrow> (\<exists>k \<in> set ks. occursAt cn k inp i \<and> isWordBoundary inp i
          \<and> isWordBoundary inp (i + length k))"
    if "i \<le> length inp" for i
    using that by (auto simp: ends_d_Lits filter_empty_conv)
  have le: "i \<le> length inp" if "occursAt cn k inp i" for k i
    using occursAt_le[OF that] by simp
  show ?thesis
    unfolding list_ex_upto using step le by blast
qed

lemma isWordChar_canonicalize: "isWordChar (canonicalize up c) = isWordChar c"
  by (auto simp: isWordChar_def canonicalize_def Let_def)

lemma isWordBoundary_cong:
  assumes "map (canonicalize up) inp' = map (canonicalize up) inp"
  shows "isWordBoundary inp' e = isWordBoundary inp e"
proof -
  from assms have len: "length inp' = length inp" by (metis length_map)
  have w: "isWordChar (inp' ! j) = isWordChar (inp ! j)" if "j < length inp" for j
  proof -
    have "canonicalize up (inp' ! j) = canonicalize up (inp ! j)"
      using that len assms by (metis nth_map)
    then show ?thesis by (metis isWordChar_canonicalize)
  qed
  show ?thesis
    unfolding isWordBoundary_def len using w by (cases "e < length inp") auto
qed

lemma occursAt_cong:
  assumes "map cn inp' = map cn inp"
  shows "occursAt cn k inp' i = occursAt cn k inp i"
proof -
  from assms have len: "length inp' = length inp" by (metis length_map)
  have "map cn (take n (drop i inp')) = map cn (take n (drop i inp))" for n
    using assms by (simp add: take_map[symmetric] drop_map[symmetric])
  then show ?thesis by (simp add: occursAt_def len)
qed

lemma buildRegex_Some:
  "buildRegex (Some ks) p = Some re \<longleftrightarrow>
     cleaned ks \<noteq> []
     \<and> re = RegExp (if p = Some True then [40] @ join 124 (map escapeRegex (cleaned ks)) @ [41]
                    else [92, 98, 40] @ join 124 (map escapeRegex (cleaned ks)) @ [41, 92, 98]) ''i''"
  by (auto simp: buildRegex_def Let_def cleaned_def)

lemma buildRegex_None: "buildRegex (Some ks) p = None \<longleftrightarrow> cleaned ks = []"
  by (auto simp: buildRegex_def Let_def cleaned_def)

lemma RegExp_test_built:
  assumes "buildRegex (Some ks) p = Some re"
  shows "RegExp_test up re inp =
      Some (if p = Some True
            then (\<exists>k \<in> set (cleaned ks). \<exists>i. occursAt (canonicalize up) k inp i)
            else (\<exists>k \<in> set (cleaned ks). \<exists>i. occursAt (canonicalize up) k inp i
                    \<and> isWordBoundary inp i \<and> isWordBoundary inp (i + length k)))"
proof -
  from assms have ne: "cleaned ks \<noteq> []" and
    re: "re = RegExp (if p = Some True then [40] @ join 124 (map escapeRegex (cleaned ks)) @ [41]
                    else [92, 98, 40] @ join 124 (map escapeRegex (cleaned ks)) @ [41, 92, 98]) ''i''"
    by (simp_all add: buildRegex_Some)
  show ?thesis
  proof (cases "p = Some True")
    case True
    then have "source re = [40] @ join 124 (map escapeRegex (cleaned ks)) @ [41]" "flags re = ''i''"
      using re by simp_all
    then show ?thesis
      using True parse_partial[OF ne] test_partial[of "canonicalize up" inp "cleaned ks"]
      by (simp add: RegExp_test_def)
  next
    case False
    then have "source re = [92, 98, 40] @ join 124 (map escapeRegex (cleaned ks)) @ [41, 92, 98]"
      "flags re = ''i''"
      using re by simp_all
    then show ?thesis
      using False parse_bounded[OF ne] test_bounded[of "canonicalize up" inp "cleaned ks"]
      by (simp add: RegExp_test_def)
  qed
qed

lemma trim_decomposition:
  "\<exists>a b. k = a @ trim k @ b \<and> list_all isWhiteSpace a \<and> list_all isWhiteSpace b"
proof -
  let ?d = "dropWhile isWhiteSpace k"
  have 1: "k = takeWhile isWhiteSpace k @ ?d" by simp
  have "?d = rev (dropWhile isWhiteSpace (rev ?d)) @ rev (takeWhile isWhiteSpace (rev ?d))"
    by (metis rev_append rev_rev_ident takeWhile_dropWhile_id)
  then have 2: "?d = trim k @ rev (takeWhile isWhiteSpace (rev ?d))"
    by (simp only: trim_def)
  have 3: "list_all isWhiteSpace (takeWhile isWhiteSpace k)"
    by (simp add: list_all_iff) (metis set_takeWhileD)
  have 4: "list_all isWhiteSpace (rev (takeWhile isWhiteSpace (rev ?d)))"
    by (simp add: list_all_iff) (metis set_takeWhileD)
  from 1 2 have "k = takeWhile isWhiteSpace k @ trim k @ rev (takeWhile isWhiteSpace (rev ?d))"
    by metis
  with 3 4 show ?thesis by blast
qed

lemma occursAt_infix:
  assumes "occursAt cn (a @ m @ b) inp i"
  shows "occursAt cn m inp (i + length a)"
proof -
  let ?n = "length a + length m + length b"
  from assms have len: "i + ?n \<le> length inp"
    and eq: "map cn (take ?n (drop i inp)) = map cn a @ map cn m @ map cn b"
    by (simp_all add: occursAt_def add.assoc)
  have "take (length m) (drop (length a) (take ?n (drop i inp)))
        = take (length m) (drop (i + length a) inp)"
    by (simp add: drop_take add.commute)
  moreover have "map cn (take (length m) (drop (length a) (take ?n (drop i inp))))
        = take (length m) (drop (length a) (map cn (take ?n (drop i inp))))"
    by (simp add: take_map drop_map)
  moreover have "take (length m) (drop (length a) (map cn a @ map cn m @ map cn b)) = map cn m"
    by simp
  ultimately have "map cn (take (length m) (drop (i + length a) inp)) = map cn m"
    using eq by metis
  then show ?thesis using len by (simp add: occursAt_def)
qed

text \<open>
  Claim C1. Whenever \<open>buildRegex\<close> returns a matcher, \<^verbatim>\<open>test\<close> on a text answers
  (the pattern is never outside the interpreted fragment) and is case-insensitive:
  with the partial flag true it holds exactly when some cleaned keyword occurs in the
  text up to case; otherwise exactly when some cleaned keyword occurs up to case with
  a word boundary at its start and at its end. Two texts that agree up to case get the
  same answer. With the partial flag true, an occurrence up to case of any keyword
  that is not blank suffices. A position between two word characters is no word
  boundary, so a keyword of word characters inside a longer word does not match.
\<close>

theorem matcher_semantics:
  assumes "buildRegex (Some ks) p = Some re"
  shows "RegExp_test up re inp =
      Some (if p = Some True
            then (\<exists>k \<in> set (cleaned ks). \<exists>i. occursAt (canonicalize up) k inp i)
            else (\<exists>k \<in> set (cleaned ks). \<exists>i. occursAt (canonicalize up) k inp i
                    \<and> isWordBoundary inp i \<and> isWordBoundary inp (i + length k)))
     \<and> (map (canonicalize up) inp' = map (canonicalize up) inp \<longrightarrow>
          RegExp_test up re inp' = RegExp_test up re inp)
     \<and> (p = Some True \<and> k \<in> set ks \<and> trim k \<noteq> [] \<and> occursAt (canonicalize up) k inp i \<longrightarrow>
          RegExp_test up re inp = Some True)
     \<and> (0 < j \<and> j < length inp \<and> isWordChar (inp ! (j - 1)) \<and> isWordChar (inp ! j) \<longrightarrow>
          \<not> isWordBoundary inp j)"
proof (intro conjI)
  show "RegExp_test up re inp =
      Some (if p = Some True
            then (\<exists>k \<in> set (cleaned ks). \<exists>i. occursAt (canonicalize up) k inp i)
            else (\<exists>k \<in> set (cleaned ks). \<exists>i. occursAt (canonicalize up) k inp i
                    \<and> isWordBoundary inp i \<and> isWordBoundary inp (i + length k)))"
    by (rule RegExp_test_built[OF assms])
next
  show "map (canonicalize up) inp' = map (canonicalize up) inp \<longrightarrow>
          RegExp_test up re inp' = RegExp_test up re inp"
  proof
    assume eq: "map (canonicalize up) inp' = map (canonicalize up) inp"
    show "RegExp_test up re inp' = RegExp_test up re inp"
    proof -
      have o: "occursAt (canonicalize up) k inp' = occursAt (canonicalize up) k inp" for k
        by (rule ext) (rule occursAt_cong[OF eq])
      have b: "isWordBoundary inp' = isWordBoundary inp"
        by (rule ext) (rule isWordBoundary_cong[OF eq])
      show ?thesis
        unfolding RegExp_test_built[OF assms] by (simp add: o b)
    qed
  qed
next
  show "p = Some True \<and> k \<in> set ks \<and> trim k \<noteq> [] \<and> occursAt (canonicalize up) k inp i \<longrightarrow>
          RegExp_test up re inp = Some True"
  proof
    assume h: "p = Some True \<and> k \<in> set ks \<and> trim k \<noteq> [] \<and> occursAt (canonicalize up) k inp i"
    then have c: "trim k \<in> set (cleaned ks)" by (auto simp: cleaned_def)
    from trim_decomposition[of k] obtain a b where k: "k = a @ trim k @ b" by blast
    from h have "occursAt (canonicalize up) (a @ trim k @ b) inp i" using k by metis
    then have "occursAt (canonicalize up) (trim k) inp (i + length a)" by (rule occursAt_infix)
    with c h show "RegExp_test up re inp = Some True"
      unfolding RegExp_test_built[OF assms] by auto
  qed
next
  show "0 < j \<and> j < length inp \<and> isWordChar (inp ! (j - 1)) \<and> isWordChar (inp ! j) \<longrightarrow>
          \<not> isWordBoundary inp j"
    by (auto simp: isWordBoundary_def)
qed

lemma ship_pattern:
  "buildRegex (Some [str '' ship '']) (Some False)
     = Some (RegExp [92, 98, 40, 115, 104, 105, 112, 41, 92, 98] ''i'')"
  by (simp add: buildRegex_def cleaned_def trim_def isWhiteSpace_def escapeRegex_def
      escapedClass_def str_def)

lemma ship_parsed:
  "parsePattern [92, 98, 40, 115, 104, 105, 112, 41, 92, 98]
     = Some [[WordB, Group [[Lit 115, Lit 104, Lit 105, Lit 112]], WordB]]"
  by (simp add: parsePattern_def isSyntaxCharacter_def)

lemma ship_shipment:
  "RegExp_test (\<lambda>c. c) (RegExp [92, 98, 40, 115, 104, 105, 112, 41, 92, 98] ''i'')
     (str ''shipment'') = Some False"
  by (simp add: RegExp_test_def ship_parsed str_def upt_rec canonicalize_def isWordBoundary_def
      isWordChar_def)

lemma ship_whole_word:
  "RegExp_test (\<lambda>c. c) (RegExp [92, 98, 40, 115, 104, 105, 112, 41, 92, 98] ''i'')
     (str ''a SHIP!'') = Some True"
  by (simp add: RegExp_test_def ship_parsed str_def upt_rec canonicalize_def isWordBoundary_def
      isWordChar_def)

text \<open>The keyword \<^verbatim>\<open>ship\<close> does not match inside \<^verbatim>\<open>shipment\<close> and matches
  \<^verbatim>\<open>a SHIP!\<close>.\<close>

theorem matcher_semantics_witness:
  "buildRegex (Some [str '' ship '']) (Some False)
     = Some (RegExp [92, 98, 40, 115, 104, 105, 112, 41, 92, 98] ''i'')
   \<and> RegExp_test (\<lambda>c. c) (RegExp [92, 98, 40, 115, 104, 105, 112, 41, 92, 98] ''i'')
        (str ''shipment'') = Some False
   \<and> \<not> (\<exists>k \<in> set (cleaned [str '' ship '']). \<exists>i.
           occursAt (canonicalize (\<lambda>c. c)) k (str ''shipment'') i
           \<and> isWordBoundary (str ''shipment'') i
           \<and> isWordBoundary (str ''shipment'') (i + length k))
   \<and> RegExp_test (\<lambda>c. c) (RegExp [92, 98, 40, 115, 104, 105, 112, 41, 92, 98] ''i'')
        (str ''a SHIP!'') = Some True
   \<and> (\<exists>k \<in> set (cleaned [str '' ship '']). \<exists>i.
           occursAt (canonicalize (\<lambda>c. c)) k (str ''a SHIP!'') i
           \<and> isWordBoundary (str ''a SHIP!'') i
           \<and> isWordBoundary (str ''a SHIP!'') (i + length k))"
  using matcher_semantics[OF ship_pattern, of "\<lambda>c. c" "str ''shipment''" "[]" "[]" 0 0]
    matcher_semantics[OF ship_pattern, of "\<lambda>c. c" "str ''a SHIP!''" "[]" "[]" 0 0]
    ship_pattern
  by (simp add: ship_shipment ship_whole_word)

lemma trim_ends:
  assumes "trim k \<noteq> []"
  shows "\<not> isWhiteSpace (hd (trim k)) \<and> \<not> isWhiteSpace (last (trim k))"
proof -
  let ?d = "dropWhile isWhiteSpace k"
  let ?e = "dropWhile isWhiteSpace (rev ?d)"
  have t: "trim k = rev ?e" by (simp add: trim_def)
  from assms t have e: "?e \<noteq> []" by simp
  then have l: "\<not> isWhiteSpace (hd ?e)" by (rule hd_dropWhile)
  have last: "last (trim k) = hd ?e" using e by (simp add: t last_rev)
  have "?d = rev ?e @ rev (takeWhile isWhiteSpace (rev ?d))"
    by (metis rev_append rev_rev_ident takeWhile_dropWhile_id)
  then have d: "?d = trim k @ rev (takeWhile isWhiteSpace (rev ?d))" by (simp only: t)
  from assms d have dn: "?d \<noteq> []" by (metis append_is_Nil_conv)
  then have "\<not> isWhiteSpace (hd ?d)" by (rule hd_dropWhile)
  moreover from d assms have "hd ?d = hd (trim k)" by (metis hd_append2)
  ultimately show ?thesis using l last by simp
qed

lemma parse_escaped: "parsePattern (escapeRegex k) = Some [map Lit k]"
  using parseRx_escape[of "[]" "[]" "[]" k "[]"] by (simp add: parsePattern_def)

lemma escapedClass_syntax: "escapedClass c \<longleftrightarrow> isSyntaxCharacter c"
  by (simp add: escapedClass_def isSyntaxCharacter_def insert_commute)

lemma parse_unescaped: "isSyntaxCharacter c \<Longrightarrow> parsePattern [c] \<noteq> Some [[Lit c]]"
  by (auto simp: parsePattern_def isSyntaxCharacter_def)

text \<open>
  Claim C8. \<open>buildRegex\<close> returns no matcher exactly when no keyword is left after
  trimming and dropping the empty ones (and when the keywords are not an array). The
  cleaned keywords are the non-empty trimmed keywords; a trimmed keyword is the keyword
  without a run of white space at each end, and neither starts nor ends with white
  space. An escaped keyword is read by the pattern language as the literal keyword,
  which matches at a position exactly when the keyword occurs there up to the case
  folding in force; every syntax character is escaped, and none would be read as
  itself unescaped. So the pattern built is the group of the literal cleaned
  keywords, between word boundaries unless partial. Without a matcher \<open>scan\<close> is
  skipped, and so is the body of \<open>runScan\<close>.
\<close>

theorem no_matcher:
  "(buildRegex (Some ks) p = None \<longleftrightarrow> cleaned ks = [])
   \<and> buildRegex None p = None
   \<and> set (cleaned ks) = {trim k | k. k \<in> set ks \<and> trim k \<noteq> []}
   \<and> (\<exists>a b. k = a @ trim k @ b \<and> list_all isWhiteSpace a \<and> list_all isWhiteSpace b)
   \<and> (trim k \<noteq> [] \<longrightarrow> \<not> isWhiteSpace (hd (trim k)) \<and> \<not> isWhiteSpace (last (trim k)))
   \<and> parsePattern (escapeRegex k) = Some [map Lit k]
   \<and> (i \<le> length inp \<longrightarrow>
        ends_a cn inp (map Lit k) i = (if occursAt cn k inp i then [i + length k] else []))
   \<and> (isSyntaxCharacter c \<longrightarrow> escapedClass c \<and> parsePattern [c] \<noteq> Some [[Lit c]])
   \<and> (cleaned ks \<noteq> [] \<longrightarrow>
        (\<exists>re. buildRegex (Some ks) p = Some re
           \<and> parsePattern (source re)
               = Some [if p = Some True then [Group (map (map Lit) (cleaned ks))]
                       else [WordB, Group (map (map Lit) (cleaned ks)), WordB]]))
   \<and> (scan (buildRegex (Some ks) p) = Skipped \<longleftrightarrow> cleaned ks = [])
   \<and> (keywords' st = Some ks \<and> cleaned ks = [] \<longrightarrow> runScanBody st host now = Skipped)"
proof -
  have 1: "buildRegex (Some ks) p = None \<longleftrightarrow> cleaned ks = []" by (rule buildRegex_None)
  have 2: "buildRegex None p = None" by (simp add: buildRegex_def)
  have 3: "set (cleaned ks) = {trim k | k. k \<in> set ks \<and> trim k \<noteq> []}"
    by (auto simp: cleaned_def)
  have 7: "isSyntaxCharacter c \<longrightarrow> escapedClass c \<and> parsePattern [c] \<noteq> Some [[Lit c]]"
    using escapedClass_syntax parse_unescaped by blast
  have 8: "cleaned ks \<noteq> [] \<longrightarrow>
        (\<exists>re. buildRegex (Some ks) p = Some re
           \<and> parsePattern (source re)
               = Some [if p = Some True then [Group (map (map Lit) (cleaned ks))]
                       else [WordB, Group (map (map Lit) (cleaned ks)), WordB]])"
  proof
    assume ne: "cleaned ks \<noteq> []"
    show "\<exists>re. buildRegex (Some ks) p = Some re
           \<and> parsePattern (source re)
               = Some [if p = Some True then [Group (map (map Lit) (cleaned ks))]
                       else [WordB, Group (map (map Lit) (cleaned ks)), WordB]]"
      using ne parse_partial[OF ne] parse_bounded[OF ne] by (simp add: buildRegex_Some)
  qed
  have 9: "scan (buildRegex (Some ks) p) = Skipped \<longleftrightarrow> cleaned ks = []"
    using 1 by (auto simp: scan_def split: option.splits)
  have 10: "keywords' st = Some ks \<and> cleaned ks = [] \<longrightarrow> runScanBody st host now = Skipped"
    using buildRegex_None[of ks "partial st"] by (auto simp: runScanBody_def scan_def)
  have 6: "i \<le> length inp \<longrightarrow>
        ends_a cn inp (map Lit k) i = (if occursAt cn k inp i then [i + length k] else [])"
    using ends_a_Lit[of i inp cn k] by blast
  from trim_ends[of k]
  have 5: "trim k \<noteq> [] \<longrightarrow> \<not> isWhiteSpace (hd (trim k)) \<and> \<not> isWhiteSpace (last (trim k))"
    by blast
  from 1 2 3 trim_decomposition[of k] 5 parse_escaped[of k] 6 7 8 9 10
  show ?thesis by (intro conjI)
qed

lemma blank_cleaned: "cleaned [str ''  ''] = []"
  by (simp add: cleaned_def trim_def isWhiteSpace_def str_def)

lemma dotted_cleaned: "cleaned [str '' a.b ''] = [[97, 46, 98]]"
  by (simp add: cleaned_def trim_def isWhiteSpace_def str_def)

text \<open>A blank keyword alone gives no matcher; \<^verbatim>\<open>a.b\<close> gives the pattern of the three
  literal characters, the dot escaped.\<close>

theorem no_matcher_witness:
  "cleaned [str ''  ''] = []
   \<and> buildRegex (Some [str ''  '']) None = None
   \<and> scan (buildRegex (Some [str ''  '']) None) = Skipped
   \<and> cleaned [str '' a.b ''] \<noteq> []
   \<and> (\<exists>re. buildRegex (Some [str '' a.b '']) None = Some re
         \<and> parsePattern (source re) = Some [[WordB, Group [[Lit 97, Lit 46, Lit 98]], WordB]])
   \<and> isSyntaxCharacter 46 \<and> escapedClass 46 \<and> parsePattern [46] \<noteq> Some [[Lit 46]]"
proof -
  note a = no_matcher[of "[str ''  '']" None "[]" 0 "[]" "\<lambda>c. c" 46 DEFAULTS "[]" 0]
  note b = no_matcher[of "[str '' a.b '']" None "[]" 0 "[]" "\<lambda>c. c" 46 DEFAULTS "[]" 0]
  have s: "isSyntaxCharacter 46" by (simp add: isSyntaxCharacter_def)
  from a have 1: "buildRegex (Some [str ''  '']) None = None"
    using blank_cleaned by blast
  from a have 2: "scan (buildRegex (Some [str ''  '']) None) = Skipped"
    using blank_cleaned by blast
  have 3: "cleaned [str '' a.b ''] \<noteq> []" by (simp add: dotted_cleaned)
  from b 3 have "\<exists>re. buildRegex (Some [str '' a.b '']) None = Some re
           \<and> parsePattern (source re)
               = Some [if None = Some True then [Group (map (map Lit) (cleaned [str '' a.b '']))]
                       else [WordB, Group (map (map Lit) (cleaned [str '' a.b ''])), WordB]]"
    by blast
  then have 4: "\<exists>re. buildRegex (Some [str '' a.b '']) None = Some re
         \<and> parsePattern (source re) = Some [[WordB, Group [[Lit 97, Lit 46, Lit 98]], WordB]]"
    by (simp add: dotted_cleaned)
  from b s have 5: "escapedClass 46 \<and> parsePattern [46] \<noteq> Some [[Lit 46]]"
    by blast
  from blank_cleaned 1 2 3 4 s 5 show ?thesis by (intro conjI) simp_all
qed

subsection \<open>The site gate and the settings\<close>

lemma site_www: "site (''www.'' @ h) = h"
  by (simp add: site_def)

text \<open>
  Claim C2. For a populated settings snapshot, a host name and a time, the gate denies
  the scan exactly when \<open>enabled\<close> is false, or \<open>snoozeUntil\<close> is greater than the
  time, or the site rules hold a rule for the host name (a leading \<^verbatim>\<open>www.\<close> dropped)
  whose \<open>enabled\<close> is false. In every other case, among them no rule for the host, a
  rule without the \<open>enabled\<close> field and a time equal to \<open>snoozeUntil\<close>, the scan is
  allowed. A denied scan is skipped before the matcher is built.
\<close>

theorem site_gate:
  assumes "populated st"
  shows "(gateDenies st host now \<longleftrightarrow>
            enabled st = Some False
            \<or> (\<exists>u. snoozeUntil st = Some u \<and> u > now)
            \<or> (\<exists>rules r. siteRules st = Some rules \<and> rules (site host) = Some r
                  \<and> rule_enabled r = Some False))
         \<and> (gateDenies st host now \<longrightarrow> runScanBody st host now = Skipped)
         \<and> (\<not> gateDenies st host now \<longrightarrow>
               runScanBody st host now = scan (buildRegex (keywords' st) (partial st)))
         \<and> site (''www.'' @ h) = h"
proof -
  from assms obtain e u rules where
    f: "enabled st = Some e" "snoozeUntil st = Some u" "siteRules st = Some rules"
    by (auto simp: populated_def)
  have "gateDenies st host now \<longleftrightarrow>
          enabled st = Some False
          \<or> (\<exists>u. snoozeUntil st = Some u \<and> u > now)
          \<or> (\<exists>rules r. siteRules st = Some rules \<and> rules (site host) = Some r
                \<and> rule_enabled r = Some False)"
    using f
    by (auto simp: gateDenies_def snoozed_def siteEnabled_def siteRule_def
        split: option.splits)
  moreover have "gateDenies st host now \<longrightarrow> runScanBody st host now = Skipped"
    by (simp add: runScanBody_def)
  moreover have "\<not> gateDenies st host now \<longrightarrow>
               runScanBody st host now = scan (buildRegex (keywords' st) (partial st))"
    by (simp add: runScanBody_def)
  moreover note site_www[of h]
  ultimately show ?thesis by blast
qed

lemma populated_assign: "populated st \<Longrightarrow> populated (assign st p)"
  by (auto simp: populated_def assign_def overwrite_def split: option.splits)

lemma populated_DEFAULTS: "populated DEFAULTS"
  by (simp add: populated_def DEFAULTS_def)

lemma populated_onMessage: "populated st \<Longrightarrow> populated (onMessage st msg)"
  by (auto simp: onMessage_def populated_assign split: option.splits)

lemma populated_foldl: "populated st \<Longrightarrow> populated (foldl onMessage st msgs)"
  by (induction msgs arbitrary: st) (simp_all add: populated_onMessage)

text \<open>
  Claim C5. After \<open>loadSettings\<close>, whatever items the store delivers, and after every
  sequence of messages thereafter (among them the messages the storage listener of the
  background script sends), no field of the snapshot is undefined. A settings message
  is merged field by field: a field the payload carries overwrites, every other field
  keeps its value.
\<close>

theorem settings_populated:
  "populated (loadSettings items)
   \<and> populated (foldl onMessage (loadSettings items) msgs)
   \<and> onMessage st (Some \<lparr>msg_type = ''SB_SETTINGS_UPDATED'', payload = Some p\<rparr>)
       = \<lparr>enabled = overwrite (enabled st) (enabled p),
          snoozeUntil = overwrite (snoozeUntil st) (snoozeUntil p),
          keywords' = overwrite (keywords' st) (keywords' p),
          mode = overwrite (mode st) (mode p),
          intensity = overwrite (intensity st) (intensity p),
          partial = overwrite (partial st) (partial p),
          highlightDebug = overwrite (highlightDebug st) (highlightDebug p),
          siteRules = overwrite (siteRules st) (siteRules p)\<rparr>
   \<and> overwrite old None = old \<and> overwrite old (Some v) = Some v
   \<and> populated (foldl onMessage (loadSettings items)
        (map (\<lambda>(chs, area). onChanged chs area) events))"
proof -
  have l: "populated (loadSettings items)"
    unfolding loadSettings_def by (rule populated_assign[OF populated_DEFAULTS])
  show ?thesis
    using l populated_foldl[OF l, of msgs]
      populated_foldl[OF l, of "map (\<lambda>(chs, area). onChanged chs area) events"]
    by (simp add: onMessage_def assign_def overwrite_def)
qed

lemma sample_populated: "populated sampleSettings"
  by (simp add: populated_def sampleSettings_def DEFAULTS_def)

lemma snoozed_populated: "populated (sampleSettings\<lparr>snoozeUntil := Some 10\<rparr>)"
  by (simp add: populated_def sampleSettings_def DEFAULTS_def)

text \<open>A rule that disables \<^verbatim>\<open>example.com\<close>, a rule without the field for
  \<^verbatim>\<open>plain.org\<close>, no rule for \<^verbatim>\<open>other.net\<close>, and a snooze until 10.\<close>

theorem site_gate_witness:
  "populated sampleSettings
   \<and> gateDenies sampleSettings ''www.example.com'' 5
   \<and> runScanBody sampleSettings ''www.example.com'' 5 = Skipped
   \<and> \<not> gateDenies sampleSettings ''plain.org'' 5
   \<and> \<not> gateDenies sampleSettings ''other.net'' 0
   \<and> gateDenies (sampleSettings\<lparr>snoozeUntil := Some 10\<rparr>) ''other.net'' 9
   \<and> \<not> gateDenies (sampleSettings\<lparr>snoozeUntil := Some 10\<rparr>) ''other.net'' 10"
proof -
  have s1: "site ''www.example.com'' = ''example.com''" "site ''plain.org'' = ''plain.org''"
    "site ''other.net'' = ''other.net''"
    by (simp_all add: site_def)
  have f: "enabled sampleSettings = Some True" "snoozeUntil sampleSettings = Some 0"
    "siteRules sampleSettings
       = Some [''example.com'' \<mapsto> SiteRule (Some False), ''plain.org'' \<mapsto> SiteRule None]"
    by (simp_all add: sampleSettings_def DEFAULTS_def)
  show ?thesis
    using site_gate[OF sample_populated, of "''www.example.com''" 5 "[]"]
      site_gate[OF sample_populated, of "''plain.org''" 5 "[]"]
      site_gate[OF sample_populated, of "''other.net''" 0 "[]"]
      site_gate[OF snoozed_populated, of "''other.net''" 9 "[]"]
      site_gate[OF snoozed_populated, of "''other.net''" 10 "[]"]
    by (simp add: s1 f sample_populated)
qed

lemma sample_messages:
  "foldl onMessage (loadSettings emptyObject)
     [Some \<lparr>msg_type = ''SB_SETTINGS_UPDATED'', payload = Some (emptyObject\<lparr>mode := Some ''blackout''\<rparr>)\<rparr>,
      None,
      Some \<lparr>msg_type = ''OTHER'', payload = Some (emptyObject\<lparr>mode := Some ''collapse''\<rparr>)\<rparr>,
      Some \<lparr>msg_type = ''SB_SETTINGS_UPDATED'', payload = None\<rparr>]
   = DEFAULTS\<lparr>mode := Some ''blackout''\<rparr>"
  by (simp add: onMessage_def loadSettings_def assign_def overwrite_def emptyObject_def DEFAULTS_def)

text \<open>A load with no stored items, then a settings message that sets the mode, a
  null message, a message of another type and a settings message without payload.\<close>

theorem settings_populated_witness:
  "foldl onMessage (loadSettings emptyObject)
     [Some \<lparr>msg_type = ''SB_SETTINGS_UPDATED'', payload = Some (emptyObject\<lparr>mode := Some ''blackout''\<rparr>)\<rparr>,
      None,
      Some \<lparr>msg_type = ''OTHER'', payload = Some (emptyObject\<lparr>mode := Some ''collapse''\<rparr>)\<rparr>,
      Some \<lparr>msg_type = ''SB_SETTINGS_UPDATED'', payload = None\<rparr>]
   = DEFAULTS\<lparr>mode := Some ''blackout''\<rparr>
   \<and> populated (DEFAULTS\<lparr>mode := Some ''blackout''\<rparr>)"
proof -
  note t = settings_populated[of emptyObject
      "[Some \<lparr>msg_type = ''SB_SETTINGS_UPDATED'', payload = Some (emptyObject\<lparr>mode := Some ''blackout''\<rparr>)\<rparr>,
      None,
      Some \<lparr>msg_type = ''OTHER'', payload = Some (emptyObject\<lparr>mode := Some ''collapse''\<rparr>)\<rparr>,
      Some \<lparr>msg_type = ''SB_SETTINGS_UPDATED'', payload = None\<rparr>]" DEFAULTS emptyObject None True "[]"]
  from t have "populated (foldl onMessage (loadSettings emptyObject)
      [Some \<lparr>msg_type = ''SB_SETTINGS_UPDATED'', payload = Some (emptyObject\<lparr>mode := Some ''blackout''\<rparr>)\<rparr>,
      None,
      Some \<lparr>msg_type = ''OTHER'', payload = Some (emptyObject\<lparr>mode := Some ''collapse''\<rparr>)\<rparr>,
      Some \<lparr>msg_type = ''SB_SETTINGS_UPDATED'', payload = None\<rparr>])"
    by (rule conjunct1[OF conjunct2])
  then have "populated (DEFAULTS\<lparr>mode := Some ''blackout''\<rparr>)"
    by (simp only: sample_messages)
  with sample_messages show ?thesis by (intro conjI)
qed

subsection \<open>The text node walker\<close>

lemma acceptNode_iff:
  "acceptNode gcs s par = FILTER_ACCEPT \<longleftrightarrow>
     2 \<le> length (trim s)
     \<and> (\<exists>pp st. par = Some pp \<and> gcs pp = Some st
            \<and> visibility st \<noteq> ''hidden'' \<and> display st \<noteq> ''none'')"
  by (auto simp: acceptNode_def Let_def split: option.splits)

lemma nodeAt_Cons_Suc: "nodeAt (x # ns) (Suc j # r) = nodeAt ns (j # r)"
  by (cases r) simp_all

lemma nodeAt_Text_0:
  "nodeAt (TextNode s # ns) (0 # r) = (if r = [] then Some (TextNode s) else None)"
  by (cases r) simp_all

lemma nodeAt_Element_0:
  "nodeAt (Element a cs # ns) (0 # r) = (if r = [] then Some (Element a cs) else nodeAt cs r)"
  by (cases r) simp_all

lemma nodeAt_Nil: "nodeAt [] p = None"
proof (cases p)
  case Nil
  then show ?thesis by simp
next
  case (Cons i r)
  then show ?thesis by (cases r) simp_all
qed

lemma accepted_Nil: "\<not> accepted gcs pp i [] p"
  by (simp add: accepted_def nodeAt_Nil)

lemma accepted_split:
  "accepted gcs pp i (x # ns) p \<longleftrightarrow>
     (\<exists>r s. p = pp @ i # r \<and> nodeAt [x] (0 # r) = Some (TextNode s)
        \<and> acceptNode gcs s (Some (butlast p)) = FILTER_ACCEPT)
     \<or> accepted gcs pp (Suc i) ns p"
proof -
  have a: "nodeAt (x # ns) (0 # r) = nodeAt [x] (0 # r)" for r
    by (cases x; cases r) simp_all
  show ?thesis
    unfolding accepted_def
  proof (intro iffI)
    assume "\<exists>j r s. p = pp @ (i + j) # r \<and> nodeAt (x # ns) (j # r) = Some (TextNode s)
        \<and> acceptNode gcs s (Some (butlast p)) = FILTER_ACCEPT"
    then obtain j r s where h: "p = pp @ (i + j) # r" "nodeAt (x # ns) (j # r) = Some (TextNode s)"
      "acceptNode gcs s (Some (butlast p)) = FILTER_ACCEPT" by blast
    show "(\<exists>r s. p = pp @ i # r \<and> nodeAt [x] (0 # r) = Some (TextNode s)
        \<and> acceptNode gcs s (Some (butlast p)) = FILTER_ACCEPT)
     \<or> (\<exists>j r s. p = pp @ (Suc i + j) # r \<and> nodeAt ns (j # r) = Some (TextNode s)
        \<and> acceptNode gcs s (Some (butlast p)) = FILTER_ACCEPT)"
    proof (cases j)
      case 0
      then show ?thesis using h a by auto
    next
      case (Suc j')
      then show ?thesis using h by (auto simp: nodeAt_Cons_Suc)
    qed
  next
    assume "(\<exists>r s. p = pp @ i # r \<and> nodeAt [x] (0 # r) = Some (TextNode s)
        \<and> acceptNode gcs s (Some (butlast p)) = FILTER_ACCEPT)
     \<or> (\<exists>j r s. p = pp @ (Suc i + j) # r \<and> nodeAt ns (j # r) = Some (TextNode s)
        \<and> acceptNode gcs s (Some (butlast p)) = FILTER_ACCEPT)"
    then show "\<exists>j r s. p = pp @ (i + j) # r \<and> nodeAt (x # ns) (j # r) = Some (TextNode s)
        \<and> acceptNode gcs s (Some (butlast p)) = FILTER_ACCEPT"
    proof
      assume "\<exists>r s. p = pp @ i # r \<and> nodeAt [x] (0 # r) = Some (TextNode s)
        \<and> acceptNode gcs s (Some (butlast p)) = FILTER_ACCEPT"
      then obtain r s where "p = pp @ (i + 0) # r" "nodeAt (x # ns) (0 # r) = Some (TextNode s)"
        "acceptNode gcs s (Some (butlast p)) = FILTER_ACCEPT" using a by auto
      then show ?thesis by blast
    next
      assume "\<exists>j r s. p = pp @ (Suc i + j) # r \<and> nodeAt ns (j # r) = Some (TextNode s)
        \<and> acceptNode gcs s (Some (butlast p)) = FILTER_ACCEPT"
      then obtain j r s where "p = pp @ (i + Suc j) # r" "nodeAt (x # ns) (Suc j # r) = Some (TextNode s)"
        "acceptNode gcs s (Some (butlast p)) = FILTER_ACCEPT" by (auto simp: nodeAt_Cons_Suc)
      then show ?thesis by blast
    qed
  qed
qed

lemma walk_accepted: "p \<in> set (walk gcs pp i kids) \<longleftrightarrow> accepted gcs pp i kids p"
proof (induction gcs pp i kids rule: walk.induct)
  case (1 gcs parent i)
  show ?case by (simp add: accepted_Nil)
next
  case (2 gcs parent i s ns)
  have "(\<exists>r s'. p = parent @ i # r \<and> nodeAt [TextNode s] (0 # r) = Some (TextNode s')
        \<and> acceptNode gcs s' (Some (butlast p)) = FILTER_ACCEPT)
      \<longleftrightarrow> (p = parent @ [i] \<and> acceptNode gcs s (Some parent) = FILTER_ACCEPT)"
    by (auto simp: nodeAt_Text_0 butlast_append split: if_splits)
  then show ?case using 2 by (auto simp: accepted_split[of gcs parent i "TextNode s"])
next
  case (3 gcs parent i a cs ns)
  have "(\<exists>r s'. p = parent @ i # r \<and> nodeAt [Element a cs] (0 # r) = Some (TextNode s')
        \<and> acceptNode gcs s' (Some (butlast p)) = FILTER_ACCEPT)
      \<longleftrightarrow> accepted gcs (parent @ [i]) 0 cs p"
  proof
    assume "\<exists>r s'. p = parent @ i # r \<and> nodeAt [Element a cs] (0 # r) = Some (TextNode s')
        \<and> acceptNode gcs s' (Some (butlast p)) = FILTER_ACCEPT"
    then obtain r s' where h: "p = parent @ i # r" "nodeAt [Element a cs] (0 # r) = Some (TextNode s')"
      "acceptNode gcs s' (Some (butlast p)) = FILTER_ACCEPT" by blast
    from h(2) have rn: "r \<noteq> []" and n: "nodeAt cs r = Some (TextNode s')"
      by (auto simp: nodeAt_Element_0 split: if_splits)
    then obtain j r' where r: "r = j # r'" by (cases r) auto
    show "accepted gcs (parent @ [i]) 0 cs p"
      unfolding accepted_def using h n r by auto
  next
    assume "accepted gcs (parent @ [i]) 0 cs p"
    then obtain j r s' where h: "p = (parent @ [i]) @ (0 + j) # r" "nodeAt cs (j # r) = Some (TextNode s')"
      "acceptNode gcs s' (Some (butlast p)) = FILTER_ACCEPT" unfolding accepted_def by blast
    then show "\<exists>r s'. p = parent @ i # r \<and> nodeAt [Element a cs] (0 # r) = Some (TextNode s')
        \<and> acceptNode gcs s' (Some (butlast p)) = FILTER_ACCEPT"
      by (auto simp: nodeAt_Element_0)
  qed
  then show ?case using 3 by (auto simp: accepted_split[of gcs parent i "Element a cs"])
qed

text \<open>
  Claim C9. A path is in the sequence \<open>textNodesUnder\<close> produces exactly when it
  leads to a text node below the root that the filter accepts with the enclosing
  element as its parent; and the filter accepts a text node exactly when its trimmed
  value has at least 2 code units, it has a parent element, and the computed style of
  that element is available with a visibility other than hidden and a display other
  than none.
\<close>

theorem walker_accepts:
  "(p \<in> set (textNodesUnder gcs root) \<longleftrightarrow>
      (\<exists>s. nodeAt (snd root) p = Some (TextNode s)
         \<and> acceptNode gcs s (Some (butlast p)) = FILTER_ACCEPT))
   \<and> (acceptNode gcs s par = FILTER_ACCEPT \<longleftrightarrow>
        2 \<le> length (trim s)
        \<and> (\<exists>pp st. par = Some pp \<and> gcs pp = Some st
              \<and> visibility st \<noteq> ''hidden'' \<and> display st \<noteq> ''none''))"
proof -
  have "accepted gcs [] 0 (snd root) p \<longleftrightarrow>
      (\<exists>s. nodeAt (snd root) p = Some (TextNode s)
         \<and> acceptNode gcs s (Some (butlast p)) = FILTER_ACCEPT)"
  proof
    assume "accepted gcs [] 0 (snd root) p"
    then show "\<exists>s. nodeAt (snd root) p = Some (TextNode s)
         \<and> acceptNode gcs s (Some (butlast p)) = FILTER_ACCEPT"
      unfolding accepted_def by auto
  next
    assume "\<exists>s. nodeAt (snd root) p = Some (TextNode s)
         \<and> acceptNode gcs s (Some (butlast p)) = FILTER_ACCEPT"
    then obtain s where h: "nodeAt (snd root) p = Some (TextNode s)"
      "acceptNode gcs s (Some (butlast p)) = FILTER_ACCEPT" by blast
    then obtain j r where "p = j # r" by (cases p) auto
    then show "accepted gcs [] 0 (snd root) p"
      unfolding accepted_def using h by auto
  qed
  then show ?thesis
    using acceptNode_iff[of gcs s par] by (simp add: textNodesUnder_def walk_accepted)
qed

lemma sample_walk: "textNodesUnder sampleStyles sampleBody = [[1, 0]]"
  by (simp add: textNodesUnder_def sampleBody_def sampleStyles_def acceptNode_def Let_def
      trim_def isWhiteSpace_def str_def)

text \<open>Of the sample body, only the text of the visible paragraph is produced: the
  first text node is too short and the last one has a hidden parent.\<close>

theorem walker_accepts_witness:
  "textNodesUnder sampleStyles sampleBody = [[1, 0]]
   \<and> (\<exists>s. nodeAt (snd sampleBody) [1, 0] = Some (TextNode s)
         \<and> acceptNode sampleStyles s (Some [1]) = FILTER_ACCEPT)
   \<and> \<not> (\<exists>s. nodeAt (snd sampleBody) [2, 0] = Some (TextNode s)
         \<and> acceptNode sampleStyles s (Some [2]) = FILTER_ACCEPT)
   \<and> \<not> (\<exists>s. nodeAt (snd sampleBody) [0] = Some (TextNode s)
         \<and> acceptNode sampleStyles s (Some []) = FILTER_ACCEPT)"
  using walker_accepts[of "[1, 0]" sampleStyles sampleBody "[]" None]
    walker_accepts[of "[2, 0]" sampleStyles sampleBody "[]" None]
    walker_accepts[of "[0]" sampleStyles sampleBody "[]" None]
  by (simp add: sample_walk)

subsection \<open>The scan scheduler\<close>

lemma runs_burst:
  "burst wait (p # calls) \<Longrightarrow> 0 < wait \<Longrightarrow>
   runs wait (Some (p + wait)) calls = [last (p # calls) + wait]"
proof (induction calls arbitrary: p)
  case Nil
  then show ?case by simp
next
  case (Cons c calls)
  from Cons.prems have c: "p \<le> c" "c < p + wait" and b: "burst wait (c # calls)" by simp_all
  from Cons.IH[OF b Cons.prems(2)] c show ?case
    by (simp add: debounced_call_def)
qed

lemma runs_increasing:
  "sorted (p # calls) \<Longrightarrow> 0 < wait \<Longrightarrow>
   sorted_wrt (<) (runs wait (Some (p + wait)) calls)
   \<and> (\<forall>r \<in> set (runs wait (Some (p + wait)) calls). p + wait \<le> r)"
proof (induction calls arbitrary: p)
  case Nil
  then show ?case by simp
next
  case (Cons c calls)
  from Cons.prems have pc: "p \<le> c" and s: "sorted (c # calls)" by simp_all
  from Cons.IH[OF s Cons.prems(2)]
  have ih: "sorted_wrt (<) (runs wait (Some (c + wait)) calls)"
    "\<forall>r \<in> set (runs wait (Some (c + wait)) calls). c + wait \<le> r" by simp_all
  show ?case
  proof (cases "p + wait \<le> c")
    case True
    then show ?thesis using ih pc Cons.prems(2)
      by (auto simp: debounced_call_def)
  next
    case False
    then show ?thesis using ih pc by (auto simp: debounced_call_def)
  qed
qed

text \<open>
  Claim C6. For a non-empty burst of calls of \<open>runScan\<close>, each less than 300
  milliseconds after the one before, the scan runs exactly once, 300 milliseconds after
  the last call. For calls in any time order, the runs are at strictly increasing
  times, so no two runs coincide. A call replaces the pending timeout by one due 300
  milliseconds later.
\<close>

theorem debounce_burst:
  "(calls \<noteq> [] \<and> burst 300 calls \<longrightarrow> runScan_runs calls = [last calls + 300])
   \<and> (sorted calls \<longrightarrow> sorted_wrt (<) (runScan_runs calls))
   \<and> debounced_call 300 now t = Some (now + 300)"
proof (cases calls)
  case Nil
  then show ?thesis by (simp add: runScan_runs_def debounced_call_def)
next
  case (Cons c cs)
  have "burst 300 calls \<longrightarrow> runScan_runs calls = [last calls + 300]"
    using runs_burst[of 300 c cs] by (simp add: Cons runScan_runs_def debounced_call_def)
  moreover have "sorted calls \<longrightarrow> sorted_wrt (<) (runScan_runs calls)"
    using runs_increasing[of c cs 300] by (simp add: Cons runScan_runs_def debounced_call_def)
  ultimately show ?thesis by (simp add: debounced_call_def)
qed

text \<open>Four calls within one burst, and three calls of which the second comes after
  the first timeout has fired.\<close>

theorem debounce_burst_witness:
  "[0, 100, 250, 549] \<noteq> [] \<and> burst 300 [0, 100, 250, 549]
   \<and> runScan_runs [0, 100, 250, 549] = [849]
   \<and> sorted [0, 400, 500 :: nat] \<and> runScan_runs [0, 400, 500] = [300, 800]
   \<and> sorted_wrt (<) (runScan_runs [0, 400, 500])"
  using debounce_burst[of "[0, 100, 250, 549]" 0 None] debounce_burst[of "[0, 400, 500]" 0 None]
  by (simp add: runScan_runs_def debounced_call_def)

end
